theory Spec2Isabelle
  imports Main "HOL-Library.Word"
begin

unbundle bit_operations_syntax

section \<open>Data model\<close>

text \<open>
  The mapped memory of a \<^verbatim>\<open>GstBuffer\<close> is a list of bytes; a \<^verbatim>\<open>guint8 *\<close> into it is
  the offset from \<^verbatim>\<open>info.data\<close> (a natural number), \<^verbatim>\<open>NULL\<close> is \<open>None\<close>.  The C types
  \<^verbatim>\<open>guint8\<close> and \<^verbatim>\<open>guint32\<close> are machine words; a pointer difference assigned to a
  \<^verbatim>\<open>guint32\<close> is the integer difference reduced modulo \<open>2 ^ 32\<close> (\<open>of_int\<close>).
\<close>

type_synonym guint8 = "8 word"
type_synonym guint32 = "32 word"

text \<open>
  \<^verbatim>\<open>g_assert\<close> stops the program when its condition is false.  The two assertions of the
  byte-stream code are the two values of this type; a run that stops on one of them
  yields \<open>Inl\<close> of it.
\<close>

datatype assertion =
    Assert_next_nal_args      \<comment> \<open>\<^verbatim>\<open>g_assert (len != 0U && buffer && nal_size)\<close>\<close>
  | Assert_nal_body_offset    \<comment> \<open>\<^verbatim>\<open>g_assert (nal_body - nal_start_code == 4)\<close>\<close>

section \<open>\<^verbatim>\<open>_h265_byte_stream_next_nal\<close>\<close>

text \<open>
  The block ``locate head position'': the width of the start code found at \<^verbatim>\<open>buffer\<close>,
  for \<open>3 \<le> len\<close>.
\<close>

definition locate_head :: "guint8 list \<Rightarrow> nat \<Rightarrow> guint32 \<Rightarrow> guint32" where
  "locate_head mem buffer len =
     (if mem ! buffer = 0 \<and> mem ! (buffer + 1) = 0 then
        if mem ! (buffer + 2) = 1 then 3
        else if mem ! (buffer + 2) = 0 \<and> 4 \<le> len \<and> mem ! (buffer + 3) = 1 then 4
        else 0
      else 0)"

text \<open>
  The loop ``find next nal start position''.  Its state is the read pointer \<open>cur\<close>, the
  sliding window \<open>flag\<close> and the cell \<^verbatim>\<open>*nal_size\<close>; it returns the pointer and the cell
  at loop exit (by \<^verbatim>\<open>break\<close> or because \<open>cur\<close> reached \<open>end\<close>).
\<close>

function find_next_start ::
  "guint8 list \<Rightarrow> nat \<Rightarrow> nat \<Rightarrow> nat \<Rightarrow> guint32 \<Rightarrow> guint32 \<Rightarrow> nat \<times> guint32"
where
  "find_next_start mem end nal_start cur flag nal_size =
     (if cur < end then
        (let flag' = push_bit 8 flag OR (ucast (mem ! cur) AND 0xFF);
             cur' = cur + 1
         in if flag' AND 0x00FFFFFF = 0x00000001 then
              (if flag' = 0x00000001
               then (cur', of_int (int cur' - 4 - int nal_start))
               else (cur', of_int (int cur' - 3 - int nal_start)))
            else find_next_start mem end nal_start cur' flag' nal_size)
      else (cur, nal_size))"
  by pat_completeness auto
termination
  by (relation "measure (\<lambda>(mem, end, nal_start, cur, flag, nal_size). end - cur)") auto

declare find_next_start.simps [simp del]

text \<open>
  The scanner.  \<open>nal_size\<close> is the content of the cell \<^verbatim>\<open>*nal_size\<close> on entry; the result
  is the returned pointer together with the content of the cell on return.  The
  pointers \<^verbatim>\<open>buffer\<close> and \<^verbatim>\<open>nal_size\<close> are never \<^verbatim>\<open>NULL\<close> here, so the assertion at the head
  of the function is the test of \<^verbatim>\<open>len\<close>.  The function reads \<open>mem\<close> at offsets from
  \<^verbatim>\<open>buffer\<close> up to, but not including, \<^verbatim>\<open>buffer + len\<close>.
\<close>

definition h265_byte_stream_next_nal ::
  "guint8 list \<Rightarrow> nat \<Rightarrow> guint32 \<Rightarrow> guint32 \<Rightarrow> assertion + nat option \<times> guint32"
where
  "h265_byte_stream_next_nal mem buffer len nal_size =
     (if len = 0 then Inl Assert_next_nal_args
      else if len < 3 then Inr (if len \<noteq> 0 then Some buffer else None, len)
      else
        (let end = buffer + unat len;
             nal_start = buffer + unat (locate_head mem buffer len);
             (cur, nal_size') =
                find_next_start mem end nal_start nal_start 0xFFFFFFFF nal_size
         in if end \<le> cur then
              Inr (if end \<le> nal_start then None else Some nal_start,
                   of_int (int end - int nal_start))
            else Inr (Some nal_start, nal_size')))"

section \<open>\<^verbatim>\<open>_start_code_to_size\<close> and \<^verbatim>\<open>_h265_convert_byte_stream_to_hvc\<close>\<close>

definition start_code_to_size :: "guint8 list \<Rightarrow> nat \<Rightarrow> guint32 \<Rightarrow> guint8 list" where
  "start_code_to_size mem nal_start_code nal_size =
     mem[nal_start_code     := ucast (drop_bit 24 nal_size AND 0xFF),
         nal_start_code + 1 := ucast (drop_bit 16 nal_size AND 0xFF),
         nal_start_code + 2 := ucast (drop_bit 8 nal_size AND 0xFF),
         nal_start_code + 3 := ucast (nal_size AND 0xFF)]"

text \<open>
  One evaluation of the loop condition followed by the loop body.  \<open>Return\<close> carries what
  the function returns (\<^verbatim>\<open>TRUE\<close> or \<^verbatim>\<open>FALSE\<close>, with the memory as it is left) or the
  assertion it stops on; \<open>Continue\<close> carries the state for the next iteration.  The
  frame end is \<^verbatim>\<open>info.data + info.size\<close>, the length of the mapped memory; the length
  handed to the scanner is converted to \<^verbatim>\<open>guint32\<close>.  When the four bytes of the size
  are written, the assertion has established that the unit starts at
  \<^verbatim>\<open>nal_start_code + 4\<close>, before the frame end, so the four writes are inside the memory.
\<close>

datatype step =
    Return "assertion + bool \<times> guint8 list"
  | Continue "guint8 list" nat guint32

definition convert_iter :: "guint8 list \<Rightarrow> nat \<Rightarrow> guint32 \<Rightarrow> step" where
  "convert_iter mem nal_start_code nal_size =
     (let frame_end = length mem in
      if \<not> nal_start_code < frame_end then Return (Inr (True, mem))
      else
        (case h265_byte_stream_next_nal mem nal_start_code
                (of_int (int frame_end - int nal_start_code)) nal_size of
           Inl a \<Rightarrow> Return (Inl a)
         | Inr (None, nal_size') \<Rightarrow> Return (Inr (True, mem))
         | Inr (Some nal_body, nal_size') \<Rightarrow>
             if nal_size' = 0 then Return (Inr (False, mem))
             else if int nal_body - int nal_start_code \<noteq> 4
               then Return (Inl Assert_nal_body_offset)
             else Continue (start_code_to_size mem nal_start_code nal_size')
                           (nal_body + unat nal_size') nal_size'))"

function convert_loop :: "guint8 list \<Rightarrow> nat \<Rightarrow> guint32 \<Rightarrow> assertion + bool \<times> guint8 list"
where
  "convert_loop mem nal_start_code nal_size =
     (case convert_iter mem nal_start_code nal_size of
        Return r \<Rightarrow> r
      | Continue mem' nal_start_code' nal_size' \<Rightarrow>
          convert_loop mem' nal_start_code' nal_size')"
  by pat_completeness auto
termination
  by (relation "measure (\<lambda>(mem, nal_start_code, nal_size). length mem - nal_start_code)")
     (auto simp: convert_iter_def start_code_to_size_def Let_def
           split: if_splits sum.splits option.splits prod.splits)

declare convert_loop.simps [simp del]

text \<open>
  The whole function.  The argument is what \<^verbatim>\<open>gst_buffer_map\<close> delivers: \<open>None\<close> when the
  mapping fails, the mapped bytes otherwise.
\<close>

definition h265_convert_byte_stream_to_hvc ::
  "guint8 list option \<Rightarrow> assertion + bool \<times> guint8 list option"
where
  "h265_convert_byte_stream_to_hvc info =
     (case info of
        None \<Rightarrow> Inr (False, None)
      | Some mem \<Rightarrow>
          (case convert_loop mem 0 0 of
             Inl a \<Rightarrow> Inl a
           | Inr (ok, mem') \<Rightarrow> Inr (ok, Some mem')))"


text \<open>
  The same loop with a bound on the number of iterations: \<open>None\<close> when the bound is
  used up before the loop has returned.
\<close>

fun convert_fuel ::
  "nat \<Rightarrow> guint8 list \<Rightarrow> nat \<Rightarrow> guint32 \<Rightarrow> (assertion + bool \<times> guint8 list) option"
where
  "convert_fuel 0 mem nal_start_code nal_size = None"
| "convert_fuel (Suc n) mem nal_start_code nal_size =
     (case convert_iter mem nal_start_code nal_size of
        Return r \<Rightarrow> Some r
      | Continue mem' nal_start_code' nal_size' \<Rightarrow>
          convert_fuel n mem' nal_start_code' nal_size')"

text \<open>
  The loop states (memory, \<^verbatim>\<open>nal_start_code\<close>, \<^verbatim>\<open>nal_size\<close>) a run passes through.
\<close>

inductive convert_reaches ::
  "guint8 list \<times> nat \<times> guint32 \<Rightarrow> guint8 list \<times> nat \<times> guint32 \<Rightarrow> bool"
where
  start: "convert_reaches st st"
| iter: "convert_reaches st (mem, c, s) \<Longrightarrow> convert_iter mem c s = Continue mem' c' s'
          \<Longrightarrow> convert_reaches st (mem', c', s')"

section \<open>\<^verbatim>\<open>find_best_profile_value\<close> and \<^verbatim>\<open>find_best_profile\<close>\<close>

text \<open>
  A \<^verbatim>\<open>GValue\<close> holds a string (possibly \<^verbatim>\<open>NULL\<close>), a list of values, or something else.
  A \<^verbatim>\<open>GstStructure\<close> is its list of fields, \<^verbatim>\<open>gst_structure_get_value\<close> is \<open>map_of\<close>;
  a \<^verbatim>\<open>GstCaps\<close> is the list of its structures.
\<close>

type_synonym GstVaapiProfile = guint32

datatype GValue = GString "string option" | GList "GValue list" | GOther

type_synonym GstStructure = "(string \<times> GValue) list"
type_synonym GstCaps = "GstStructure list"

text \<open>
  Modelled from the spec: the constant \<^verbatim>\<open>GST_VAAPI_PROFILE_UNKNOWN\<close> of the header
  \<^verbatim>\<open>gstvaapiprofile.h\<close>, the ``none'' profile.  The code tests for it with \<^verbatim>\<open>!profile\<close>,
  so it is the value 0.
\<close>

definition GST_VAAPI_PROFILE_UNKNOWN :: GstVaapiProfile where
  "GST_VAAPI_PROFILE_UNKNOWN = 0"

record FindBestProfileData =
  best_profile :: GstVaapiProfile
  best_score :: guint32

text \<open>
  The two functions of the capability provider, \<^verbatim>\<open>gst_vaapi_utils_h265_get_profile_from_string\<close>
  and \<^verbatim>\<open>gst_vaapi_utils_h265_get_profile_score\<close>, are parameters.
\<close>

definition find_best_profile_value ::
  "(string \<Rightarrow> GstVaapiProfile) \<Rightarrow> (GstVaapiProfile \<Rightarrow> guint32) \<Rightarrow>
   FindBestProfileData \<Rightarrow> GValue option \<Rightarrow> FindBestProfileData"
where
  "find_best_profile_value get_profile_from_string get_profile_score data value =
     (case value of
        Some (GString g_str) \<Rightarrow>
          (case g_str of
             None \<Rightarrow> data
           | Some str \<Rightarrow>
               (let profile = get_profile_from_string str in
                if profile = 0 then data
                else
                  (let score = get_profile_score profile in
                   if score < best_score data then data
                   else data\<lparr>best_profile := profile, best_score := score\<rparr>)))
      | _ \<Rightarrow> data)"

text \<open>The body of the loop over the structures of the caps.\<close>

definition find_best_profile_structure ::
  "(string \<Rightarrow> GstVaapiProfile) \<Rightarrow> (GstVaapiProfile \<Rightarrow> guint32) \<Rightarrow>
   FindBestProfileData \<Rightarrow> GstStructure \<Rightarrow> FindBestProfileData"
where
  "find_best_profile_structure get_profile_from_string get_profile_score data structure =
     (case map_of structure ''profile'' of
        None \<Rightarrow> data
      | Some (GString g_str) \<Rightarrow>
          find_best_profile_value get_profile_from_string get_profile_score data
            (Some (GString g_str))
      | Some (GList vs) \<Rightarrow>
          foldl (\<lambda>d v. find_best_profile_value get_profile_from_string get_profile_score d
                         (Some v)) data vs
      | Some GOther \<Rightarrow> data)"

definition find_best_profile ::
  "(string \<Rightarrow> GstVaapiProfile) \<Rightarrow> (GstVaapiProfile \<Rightarrow> guint32) \<Rightarrow> GstCaps \<Rightarrow> GstVaapiProfile"
where
  "find_best_profile get_profile_from_string get_profile_score caps =
     best_profile
       (foldl (find_best_profile_structure get_profile_from_string get_profile_score)
          \<lparr>best_profile = GST_VAAPI_PROFILE_UNKNOWN, best_score = 0\<rparr> caps)"

section \<open>Notions used to state the properties\<close>

text \<open>
  The window is fresh after \<open>k\<close> bytes when the bytes of \<^verbatim>\<open>0xFFFFFFFF\<close> not yet shifted
  out still have their top bit set.
\<close>

definition window_fresh :: "nat \<Rightarrow> guint32 \<Rightarrow> bool" where
  "window_fresh k flag \<longleftrightarrow>
     (k \<le> 0 \<longrightarrow> bit flag 7) \<and> (k \<le> 1 \<longrightarrow> bit flag 15) \<and>
     (k \<le> 2 \<longrightarrow> bit flag 23) \<and> (k \<le> 3 \<longrightarrow> bit flag 31)"

text \<open>
  The strings the selector meets, in the order in which it meets them: the string of a
  string-valued \<^verbatim>\<open>profile\<close> field, the string elements of a list-valued one.
\<close>

definition value_strings :: "GValue \<Rightarrow> string list" where
  "value_strings v = (case v of GString (Some str) \<Rightarrow> [str] | _ \<Rightarrow> [])"

definition structure_strings :: "GstStructure \<Rightarrow> string list" where
  "structure_strings structure =
     (case map_of structure ''profile'' of
        Some (GString g_str) \<Rightarrow> value_strings (GString g_str)
      | Some (GList vs) \<Rightarrow> concat (map value_strings vs)
      | _ \<Rightarrow> [])"

definition profile_strings :: "GstCaps \<Rightarrow> string list" where
  "profile_strings caps = concat (map structure_strings caps)"

text \<open>The candidates: the profiles of the strings that resolve, in the same order.\<close>

definition resolved_candidates ::
  "(string \<Rightarrow> GstVaapiProfile) \<Rightarrow> GstCaps \<Rightarrow> GstVaapiProfile list"
where
  "resolved_candidates get_profile_from_string caps =
     filter (\<lambda>profile. profile \<noteq> 0) (map get_profile_from_string (profile_strings caps))"

text \<open>One candidate offered to the running best.\<close>

definition offer ::
  "(GstVaapiProfile \<Rightarrow> guint32) \<Rightarrow> FindBestProfileData \<Rightarrow> GstVaapiProfile
     \<Rightarrow> FindBestProfileData"
where
  "offer g d p = (if g p < best_score d then d else d\<lparr>best_profile := p, best_score := g p\<rparr>)"

text \<open>
  A capability provider with three profiles of ranks 5, 5 and 3, caps that list the
  three, and caps in which no profile string resolves.
\<close>

definition example_from_string :: "string \<Rightarrow> GstVaapiProfile" where
  "example_from_string str =
     (if str = ''main'' then 1 else if str = ''main-10'' then 2
      else if str = ''main-444'' then 3 else 0)"

definition example_score :: "GstVaapiProfile \<Rightarrow> guint32" where
  "example_score profile =
     (if profile = 1 then 5 else if profile = 2 then 5 else if profile = 3 then 3 else 0)"

definition example_caps :: GstCaps where
  "example_caps =
     [[(''profile'', GList [GString (Some ''main''), GString (Some ''main-10''),
                            GString (Some ''main-444'')])]]"

definition unresolved_caps :: GstCaps where
  "unresolved_caps =
     [[(''profile'', GString (Some ''high''))],
      [(''stream-format'', GString (Some ''hvc1''))],
      [(''profile'', GList [GString (Some ''baseline''), GOther, GString None])]]"

text \<open>
  A well-formed byte stream is the concatenation of its NAL units, each preceded by the
  start code \<^verbatim>\<open>00 00 00 01\<close>; the payload of a unit is not empty and holds no start code
  \<^verbatim>\<open>00 00 01\<close> (else it would be more than one unit).
\<close>

fun has_start_code :: "guint8 list \<Rightarrow> bool" where
  "has_start_code (a # b # c # bs) \<longleftrightarrow> (a = 0 \<and> b = 0 \<and> c = 1) \<or> has_start_code (b # c # bs)"
| "has_start_code bs \<longleftrightarrow> False"

definition byte_stream :: "guint8 list list \<Rightarrow> guint8 list" where
  "byte_stream nals = concat (map (\<lambda>nal. [0, 0, 0, 1] @ nal) nals)"

text \<open>
  The length-prefixed form: each unit preceded by its length as four bytes, most
  significant first; \<open>be32_value\<close> reads such a field back.
\<close>

definition be32 :: "nat \<Rightarrow> guint8 list" where
  "be32 n = [of_nat (n div 2 ^ 24 mod 256), of_nat (n div 2 ^ 16 mod 256),
             of_nat (n div 2 ^ 8 mod 256), of_nat (n mod 256)]"

definition be32_value :: "guint8 list \<Rightarrow> nat" where
  "be32_value bs = foldl (\<lambda>v b. v * 256 + unat b) 0 bs"

definition length_prefixed :: "guint8 list list \<Rightarrow> guint8 list" where
  "length_prefixed nals = concat (map (\<lambda>nal. be32 (length nal) @ nal) nals)"

section \<open>The scanner\<close>

subsection \<open>Unfolding the loop\<close>

lemma unat_of_nat_guint32: "n < 2 ^ 32 \<Longrightarrow> unat (of_nat n :: guint32) = n"
  by (simp add: unat_of_nat)

lemma find_next_start_unfold:
  assumes "cur < end"
  shows "find_next_start mem end ns cur flag s =
     (if (push_bit 8 flag OR (ucast (mem ! cur) AND 0xFF)) AND 0x00FFFFFF = 0x00000001 then
        (if push_bit 8 flag OR (ucast (mem ! cur) AND 0xFF) = 0x00000001
         then (Suc cur, of_int (int (Suc cur) - 4 - int ns))
         else (Suc cur, of_int (int (Suc cur) - 3 - int ns)))
      else find_next_start mem end ns (Suc cur) (push_bit 8 flag OR (ucast (mem ! cur) AND 0xFF)) s)"
  using assms by (subst find_next_start.simps) (simp add: Let_def)

lemma find_next_start_done:
  assumes "\<not> cur < end"
  shows "find_next_start mem end ns cur flag s = (cur, s)"
  using assms by (subst find_next_start.simps) simp

lemma locate_head_le: "3 \<le> len \<Longrightarrow> locate_head mem buffer len \<le> len"
  by (auto simp: locate_head_def)

subsection \<open>The initial window cannot match early\<close>

lemma window_fresh_init: "window_fresh 0 0xFFFFFFFF"
  by (simp add: window_fresh_def)

lemma window_fresh_step:
  fixes b :: guint8
  assumes "window_fresh k flag"
  shows "window_fresh (Suc k) (push_bit 8 flag OR (ucast b AND 0xFF))"
  using assms by (auto simp: window_fresh_def bit_simps)

lemma window_match3:
  assumes "window_fresh k flag" and "flag AND 0x00FFFFFF = 0x00000001"
  shows "3 \<le> k"
proof (rule ccontr)
  assume "\<not> 3 \<le> k"
  with assms(1) have "bit flag 23" by (simp add: window_fresh_def)
  then have "bit (flag AND 0x00FFFFFF) 23" by (simp add: bit_simps)
  with assms(2) show False by simp
qed

lemma window_match4:
  assumes "window_fresh k flag" and "flag = 0x00000001"
  shows "4 \<le> k"
proof (rule ccontr)
  assume "\<not> 4 \<le> k"
  with assms(1) have "bit flag 31" by (simp add: window_fresh_def)
  with assms(2) show False by simp
qed

text \<open>
  When the loop is left before the end of the region, it was left by \<^verbatim>\<open>break\<close>, at least
  three (or four) bytes after \<open>nal_start\<close>, so the subtraction that gives the size does
  not wrap around.
\<close>

lemma find_next_start_break:
  assumes "find_next_start mem end ns cur flag s = (cur', s')"
    and "cur' < end" and "ns \<le> cur" and "window_fresh (cur - ns) flag"
  shows "\<exists>k. (k = 3 \<or> k = 4) \<and> ns + k \<le> cur' \<and> s' = of_nat (cur' - k - ns)"
  using assms
proof (induction mem "end" ns cur flag s rule: find_next_start.induct)
  case (1 mem "end" ns cur flag s)
  define flag' where "flag' = push_bit 8 flag OR (ucast (mem ! cur) AND 0xFF)"
  from "1.prems"(3,4) have fresh': "window_fresh (Suc cur - ns) flag'"
    unfolding flag'_def using window_fresh_step [of "cur - ns" flag "mem ! cur"]
    by (simp add: Suc_diff_le)
  show ?case
  proof (cases "cur < end")
    case False
    with "1.prems"(1) have "cur' = cur" by (simp add: find_next_start_done)
    with False "1.prems"(2) show ?thesis by simp
  next
    case lt: True
    note unf = find_next_start_unfold [OF lt, of mem ns flag s, folded flag'_def]
    show ?thesis
    proof (cases "flag' AND 0x00FFFFFF = 0x00000001")
      case m: True
      from window_match3 [OF fresh' m] have k3: "ns + 3 \<le> Suc cur" by simp
      show ?thesis
      proof (cases "flag' = 0x00000001")
        case True
        from window_match4 [OF fresh' True] have k4: "ns + 4 \<le> Suc cur" by simp
        from m True have "find_next_start mem end ns cur flag s
            = (Suc cur, of_int (int (Suc cur) - 4 - int ns))"
          by (simp only: unf if_True simp_thms)
        with "1.prems"(1) have "(cur', s') = (Suc cur, of_int (int (Suc cur) - 4 - int ns))"
          by (simp only:)
        then have "cur' = Suc cur" "s' = of_int (int (Suc cur) - 4 - int ns)"
          by blast+
        moreover from k4 have "int (Suc cur) - 4 - int ns = int (Suc cur - 4 - ns)" by simp
        ultimately have "ns + 4 \<le> cur'" "s' = of_nat (cur' - 4 - ns)"
          using k4 by (simp_all only: of_int_of_nat_eq)
        then show ?thesis by blast
      next
        case False
        from m False have "find_next_start mem end ns cur flag s
            = (Suc cur, of_int (int (Suc cur) - 3 - int ns))"
          by (simp only: unf if_True if_False simp_thms)
        with "1.prems"(1) have "(cur', s') = (Suc cur, of_int (int (Suc cur) - 3 - int ns))"
          by (simp only:)
        then have "cur' = Suc cur" "s' = of_int (int (Suc cur) - 3 - int ns)"
          by blast+
        moreover from k3 have "int (Suc cur) - 3 - int ns = int (Suc cur - 3 - ns)" by simp
        ultimately have "ns + 3 \<le> cur'" "s' = of_nat (cur' - 3 - ns)"
          using k3 by (simp_all only: of_int_of_nat_eq)
        then show ?thesis by blast
      qed
    next
      case False
      with "1.prems"(1)
      have "find_next_start mem end ns (cur + 1) flag' s = (cur', s')"
        unfolding unf by simp
      moreover from "1.prems"(3) have "ns \<le> cur + 1" by simp
      moreover from fresh' have "window_fresh (cur + 1 - ns) flag'" by simp
      ultimately show ?thesis
        using "1.IH" [OF lt flag'_def refl False] "1.prems"(2) by blast
    qed
  qed
qed

subsection \<open>Short inputs\<close>

text \<open>
  C6 (as amended).  For a region of length 1 or 2 the scanner returns the whole region
  as one unit: the returned pointer is \<^verbatim>\<open>buffer\<close> and the size is \<^verbatim>\<open>len\<close>.  For length 0
  the assertion at the head of the function fails and no unit is returned.
\<close>

theorem next_nal_short_input:
  "(len = 1 \<or> len = 2 \<longrightarrow>
      h265_byte_stream_next_nal mem buffer len s = Inr (Some buffer, len))
   \<and> h265_byte_stream_next_nal mem buffer 0 s = Inl Assert_next_nal_args"
  by (auto simp: h265_byte_stream_next_nal_def)

theorem next_nal_short_input_witness:
  "((2::guint32) = 1 \<or> (2::guint32) = 2)
   \<and> h265_byte_stream_next_nal [0xAA, 0xBB] 0 2 0 = Inr (Some 0, 2)
   \<and> h265_byte_stream_next_nal [0xAA, 0xBB] 0 0 0 = Inl Assert_next_nal_args"
  using next_nal_short_input [of 2 "[0xAA, 0xBB]" 0 0] by simp

text \<open>
  C6 as stated fails for length 0: the scanner does not return the (empty) region as a
  unit starting at \<^verbatim>\<open>buffer\<close>, it stops on its assertion.
\<close>

theorem next_nal_length_zero_counterexample:
  "h265_byte_stream_next_nal [] 0 0 0 \<noteq> Inr (Some 0, 0)
   \<and> h265_byte_stream_next_nal [] 0 0 0 = Inl Assert_next_nal_args"
  by (simp add: h265_byte_stream_next_nal_def)

subsection \<open>A start code that fills the region\<close>

text \<open>
  C7.  When the start code recognised at the head of a region of at least three bytes
  is as long as the region (the region is exactly \<^verbatim>\<open>00 00 01\<close> or \<^verbatim>\<open>00 00 00 01\<close>), the
  scanner returns \<^verbatim>\<open>NULL\<close> (no unit), not a unit of size zero.
\<close>

theorem next_nal_only_start_code:
  assumes "3 \<le> len" and "locate_head mem buffer len = len"
  shows "h265_byte_stream_next_nal mem buffer len s = Inr (None, 0)"
proof -
  from assms(1) have "len \<noteq> 0" and "\<not> len < 3" by auto
  moreover
  have "find_next_start mem (buffer + unat len) (buffer + unat len) (buffer + unat len)
          0xFFFFFFFF s = (buffer + unat len, s)"
    by (simp add: find_next_start_done)
  ultimately show ?thesis
    by (simp add: h265_byte_stream_next_nal_def assms(2))
qed

theorem next_nal_only_start_code_witness:
  "(3::guint32) \<le> 3 \<and> locate_head [0, 0, 1] 0 3 = 3
   \<and> h265_byte_stream_next_nal [0, 0, 1] 0 3 0 = Inr (None, 0)"
proof -
  have h1: "(3::guint32) \<le> 3" by simp
  have h2: "locate_head [0, 0, 1] 0 3 = 3" by (simp add: locate_head_def)
  from next_nal_only_start_code [OF h1 h2] h1 h2 show ?thesis by simp
qed

subsection \<open>The reported unit lies in the region\<close>

text \<open>
  C9.  Whenever the scanner returns a unit for the region of \<^verbatim>\<open>len\<close> bytes at \<^verbatim>\<open>buffer\<close>,
  the unit starts at or after \<^verbatim>\<open>buffer\<close>, its size is at most \<^verbatim>\<open>len\<close>, and it ends at or
  before \<^verbatim>\<open>buffer + len\<close>.
\<close>

theorem next_nal_within_region:
  assumes "h265_byte_stream_next_nal mem buffer len s = Inr (Some nal_start, nal_size)"
  shows "buffer \<le> nal_start \<and> unat nal_size \<le> unat len \<and>
         nal_start + unat nal_size \<le> buffer + unat len"
proof (cases "len < 3")
  case True
  with assms show ?thesis
    by (auto simp: h265_byte_stream_next_nal_def split: if_splits)
next
  case False
  then have len3: "3 \<le> len" by simp
  define ns where "ns = buffer + unat (locate_head mem buffer len)"
  define e where "e = buffer + unat len"
  obtain cur s' where fs: "find_next_start mem e ns ns 0xFFFFFFFF s = (cur, s')"
    by (cases "find_next_start mem e ns ns 0xFFFFFFFF s")
  from locate_head_le [OF len3] have ns_le: "ns \<le> e"
    by (simp add: ns_def e_def word_le_nat_alt)
  have bnd: "unat len < 2 ^ 32" using unsigned_less [of len] by simp
  from len3 have "len \<noteq> 0" by auto
  with False assms fs
  have res: "(if e \<le> cur
              then Inr (if e \<le> ns then None else Some ns, of_int (int e - int ns))
              else Inr (Some ns, s'))
             = (Inr (Some nal_start, nal_size) :: assertion + nat option \<times> guint32)"
    by (simp add: h265_byte_stream_next_nal_def ns_def [symmetric] e_def [symmetric])
  show ?thesis
  proof (cases "e \<le> cur")
    case True
    with res have start: "nal_start = ns" and "nal_size = of_int (int e - int ns)"
      by (auto split: if_splits)
    moreover from ns_le have "int e - int ns = int (e - ns)" by simp
    ultimately have size: "nal_size = of_nat (e - ns)"
      by (simp only: of_int_of_nat_eq)
    have "e - ns \<le> unat len" by (simp add: e_def ns_def)
    with bnd have "unat (of_nat (e - ns) :: guint32) = e - ns"
      by (intro unat_of_nat_guint32) simp
    with size have "unat nal_size = e - ns" by (simp only:)
    with start ns_le show ?thesis by (simp add: e_def ns_def)
  next
    case False
    with res have start: "nal_start = ns" and size: "nal_size = s'" by simp_all
    from False have lt: "cur < e" by simp
    from find_next_start_break [OF fs lt] window_fresh_init
    obtain k where k: "ns + k \<le> cur" "s' = of_nat (cur - k - ns)" by auto
    have "cur - k - ns \<le> unat len" using lt by (simp add: e_def ns_def)
    with bnd have "unat (of_nat (cur - k - ns) :: guint32) = cur - k - ns"
      by (intro unat_of_nat_guint32) simp
    with k(2) size have "unat nal_size = cur - k - ns" by (simp only:)
    with start k(1) lt show ?thesis unfolding e_def ns_def by auto
  qed
qed

theorem next_nal_within_region_witness:
  "h265_byte_stream_next_nal [0, 0, 0, 1, 0xAA, 0xBB, 0, 0, 0, 1, 0xCC] 0 11 0
     = Inr (Some 4, 2)
   \<and> (0::nat) \<le> 4 \<and> unat (2::guint32) \<le> unat (11::guint32)
   \<and> 4 + unat (2::guint32) \<le> 0 + unat (11::guint32)"
proof -
  have h: "h265_byte_stream_next_nal [0, 0, 0, 1, 0xAA, 0xBB, 0, 0, 0, 1, 0xCC] 0 11 0
             = Inr (Some 4, 2)"
    by code_simp
  from next_nal_within_region [OF h] h show ?thesis by simp
qed

subsection \<open>A start code that ends the region\<close>

text \<open>
  C3.  The region \<^verbatim>\<open>00 00 00 01 AA 00 00 01\<close> has its unit start at offset 4 and a next
  start code \<^verbatim>\<open>00 00 01\<close> whose last byte is the last byte of the region.  The loop is left
  by \<^verbatim>\<open>break\<close> with the read pointer at 8 and the size \<open>8 - 3 - 4 = 1\<close>, but the test
  \<^verbatim>\<open>cur >= end\<close> after the loop holds as well and overwrites the size with \<open>end - nal_start = 4\<close>.
\<close>

theorem next_nal_start_code_at_end:
  "h265_byte_stream_next_nal [0, 0, 0, 1, 0xAA, 0, 0, 1] 0 8 0 = Inr (Some 4, 4)
   \<and> find_next_start [0, 0, 0, 1, 0xAA, 0, 0, 1] 8 4 4 0xFFFFFFFF 0 = (8, 1)"
  by code_simp

section \<open>The rewriter\<close>

subsection \<open>The loop\<close>

lemma convert_iter_Continue:
  assumes "convert_iter mem c s = Continue mem' c' s'"
  shows "length mem' = length mem \<and> c < length mem \<and> c' = c + 4 + unat s' \<and> s' \<noteq> 0"
  using assms
  by (auto simp: convert_iter_def start_code_to_size_def Let_def
           split: if_splits sum.splits option.splits prod.splits)

lemma convert_reaches_loop:
  assumes "convert_reaches st st'"
  shows "(case st of (m, c, s) \<Rightarrow> convert_loop m c s) = (case st' of (m, c, s) \<Rightarrow> convert_loop m c s)"
  using assms
proof (induction rule: convert_reaches.induct)
  case (start st)
  show ?case by simp
next
  case (iter st mem c s mem' c' s')
  from iter.hyps(2) have "convert_loop mem c s = convert_loop mem' c' s'"
    by (subst convert_loop.simps) simp
  with iter.IH show ?case by simp
qed

lemma convert_fuel_loop:
  "length mem - c < n \<Longrightarrow> convert_fuel n mem c s = Some (convert_loop mem c s)"
proof (induction n arbitrary: mem c s)
  case 0
  then show ?case by simp
next
  case (Suc n)
  show ?case
  proof (cases "convert_iter mem c s")
    case (Return r)
    then show ?thesis by (simp add: convert_loop.simps [of mem c s])
  next
    case (Continue mem' c' s')
    from convert_iter_Continue [OF this] Suc.prems have "length mem' - c' < n" by auto
    from Suc.IH [OF this] Continue show ?thesis
      by (simp add: convert_loop.simps [of mem c s])
  qed
qed

subsection \<open>Termination\<close>

text \<open>
  C10.  The rewrite loop returns on every buffer: from the state with cursor \<open>c\<close> it has
  returned after at most \<open>length mem - c + 1\<close> evaluations of the loop condition, with
  the result of \<open>convert_loop\<close>.  An iteration that does not return moves the cursor
  forward (by the four bytes of the start code and the nonzero size of the unit) and
  leaves the length of the buffer as it is, so the remaining region strictly shrinks.
\<close>

theorem convert_terminates:
  "convert_fuel (Suc (length mem - c)) mem c s = Some (convert_loop mem c s)
   \<and> (\<forall>mem' c' s'. convert_iter mem c s = Continue mem' c' s' \<longrightarrow>
         c < c' \<and> length mem' = length mem \<and> length mem' - c' < length mem - c)"
proof (intro conjI allI impI)
  show "convert_fuel (Suc (length mem - c)) mem c s = Some (convert_loop mem c s)"
    by (rule convert_fuel_loop) simp
next
  fix mem' c' s'
  assume "convert_iter mem c s = Continue mem' c' s'"
  from convert_iter_Continue [OF this]
  show "c < c'" and "length mem' = length mem" and "length mem' - c' < length mem - c"
    by auto
qed

theorem convert_terminates_witness:
  "convert_iter [0, 0, 0, 1, 0xAA, 0xBB, 0, 0, 0, 1, 0xCC] 0 0
     = Continue [0, 0, 0, 2, 0xAA, 0xBB, 0, 0, 0, 1, 0xCC] 6 2
   \<and> (0::nat) < 6
   \<and> length [0, 0, 0, 2, 0xAA, 0xBB, 0, 0, 0, 1, 0xCC :: guint8] - 6
       < length [0, 0, 0, 1, 0xAA, 0xBB, 0, 0, 0, 1, 0xCC :: guint8] - 0
   \<and> convert_fuel (Suc (length [0, 0, 0, 1, 0xAA, 0xBB, 0, 0, 0, 1, 0xCC :: guint8] - 0))
         [0, 0, 0, 1, 0xAA, 0xBB, 0, 0, 0, 1, 0xCC] 0 0
       = Some (Inr (True, [0, 0, 0, 2, 0xAA, 0xBB, 0, 0, 0, 1, 0xCC]))"
proof -
  let ?m0 = "[0, 0, 0, 1, 0xAA, 0xBB, 0, 0, 0, 1, 0xCC] :: guint8 list"
  let ?m1 = "[0, 0, 0, 2, 0xAA, 0xBB, 0, 0, 0, 1, 0xCC] :: guint8 list"
  have h: "convert_iter ?m0 0 0 = Continue ?m1 6 2"
    by code_simp
  have r: "convert_loop ?m0 0 0 = Inr (True, ?m1)"
    by code_simp
  from convert_terminates [of ?m0 0 0]
  have a: "convert_fuel (Suc (length ?m0 - 0)) ?m0 0 0 = Some (convert_loop ?m0 0 0)"
    and b: "\<forall>mem' c' s'. convert_iter ?m0 0 0 = Continue mem' c' s' \<longrightarrow>
         0 < c' \<and> length mem' = length ?m0 \<and> length mem' - c' < length ?m0 - 0"
    by blast+
  from b h have p: "(0::nat) < 6 \<and> length ?m1 - 6 < length ?m0 - 0" by blast
  from a r have q: "convert_fuel (Suc (length ?m0 - 0)) ?m0 0 0 = Some (Inr (True, ?m1))"
    by (simp only:)
  from h p q show ?thesis by blast
qed

subsection \<open>A unit of size zero\<close>

text \<open>
  C5.  If, in some iteration of a run of the rewriter, the scanner reports a unit of
  size zero, that iteration returns \<^verbatim>\<open>FALSE\<close> at once, and \<^verbatim>\<open>FALSE\<close> is the result of the
  whole run (the buffer is left as it was at that iteration).
\<close>

theorem convert_zero_size_fails:
  assumes "convert_reaches (mem0, 0, 0) (mem, c, s)"
    and "c < length mem"
    and "h265_byte_stream_next_nal mem c (of_int (int (length mem) - int c)) s
           = Inr (Some nal_body, 0)"
  shows "convert_iter mem c s = Return (Inr (False, mem))
         \<and> h265_convert_byte_stream_to_hvc (Some mem0) = Inr (False, Some mem)"
proof -
  from assms(2,3) have it: "convert_iter mem c s = Return (Inr (False, mem))"
    by (simp add: convert_iter_def)
  then have "convert_loop mem c s = Inr (False, mem)"
    by (simp add: convert_loop.simps [of mem c s])
  with convert_reaches_loop [OF assms(1)] have "convert_loop mem0 0 0 = Inr (False, mem)"
    by simp
  with it show ?thesis by (simp add: h265_convert_byte_stream_to_hvc_def)
qed

theorem convert_zero_size_fails_witness:
  "convert_reaches ([0, 0, 0, 1, 0xAA, 0xBB, 0, 0, 0, 1, 0, 0, 1, 0xCC], 0, 0)
                   ([0, 0, 0, 2, 0xAA, 0xBB, 0, 0, 0, 1, 0, 0, 1, 0xCC], 6, 2)
   \<and> (6::nat) < length [0, 0, 0, 2, 0xAA, 0xBB, 0, 0, 0, 1, 0, 0, 1, 0xCC :: guint8]
   \<and> h265_byte_stream_next_nal [0, 0, 0, 2, 0xAA, 0xBB, 0, 0, 0, 1, 0, 0, 1, 0xCC] 6 8 2
       = Inr (Some 10, 0)
   \<and> h265_convert_byte_stream_to_hvc (Some [0, 0, 0, 1, 0xAA, 0xBB, 0, 0, 0, 1, 0, 0, 1, 0xCC])
       = Inr (False, Some [0, 0, 0, 2, 0xAA, 0xBB, 0, 0, 0, 1, 0, 0, 1, 0xCC])"
proof -
  let ?m0 = "[0, 0, 0, 1, 0xAA, 0xBB, 0, 0, 0, 1, 0, 0, 1, 0xCC] :: guint8 list"
  let ?m1 = "[0, 0, 0, 2, 0xAA, 0xBB, 0, 0, 0, 1, 0, 0, 1, 0xCC] :: guint8 list"
  have "convert_iter ?m0 0 0 = Continue ?m1 6 2" by code_simp
  from convert_reaches.iter [OF convert_reaches.start this]
  have h1: "convert_reaches (?m0, 0, 0) (?m1, 6, 2)" .
  have h2: "(6::nat) < length ?m1" by simp
  have h3': "h265_byte_stream_next_nal ?m1 6 8 2 = Inr (Some 10, 0)" by code_simp
  then have h3: "h265_byte_stream_next_nal ?m1 6 (of_int (int (length ?m1) - int 6)) 2
                   = Inr (Some 10, 0)" by simp
  from convert_zero_size_fails [OF h1 h2 h3] h1 h2 h3' show ?thesis by simp
qed

subsection \<open>A unit that does not start four bytes after the cursor\<close>

text \<open>
  C4 (as amended).  If, in some iteration of a run of the rewriter, the scanner reports
  a unit whose payload does not begin exactly 4 bytes after the cursor, the run never
  returns \<^verbatim>\<open>TRUE\<close>: it returns \<^verbatim>\<open>FALSE\<close> if the reported size is zero, and otherwise it
  returns nothing, the program stops on the assertion
  \<^verbatim>\<open>nal_body - nal_start_code == 4\<close>.  The buffer \<^verbatim>\<open>00 00 01 AA 00 00 00 01 BB CC DD\<close>
  stops on the assertion in its first iteration.
\<close>

theorem convert_wrong_offset_fails:
  assumes "convert_reaches (mem0, 0, 0) (mem, c, s)"
    and "c < length mem"
    and "h265_byte_stream_next_nal mem c (of_int (int (length mem) - int c)) s
           = Inr (Some nal_body, nal_size)"
    and "int nal_body - int c \<noteq> 4"
  shows "h265_convert_byte_stream_to_hvc (Some mem0)
           = (if nal_size = 0 then Inr (False, Some mem) else Inl Assert_nal_body_offset)
         \<and> (\<forall>mem'. h265_convert_byte_stream_to_hvc (Some mem0) \<noteq> Inr (True, mem'))"
proof -
  from assms(2-4)
  have "convert_iter mem c s
          = Return (if nal_size = 0 then Inr (False, mem) else Inl Assert_nal_body_offset)"
    by (simp add: convert_iter_def)
  then have "convert_loop mem c s
          = (if nal_size = 0 then Inr (False, mem) else Inl Assert_nal_body_offset)"
    by (simp add: convert_loop.simps [of mem c s])
  with convert_reaches_loop [OF assms(1)]
  have "convert_loop mem0 0 0
          = (if nal_size = 0 then Inr (False, mem) else Inl Assert_nal_body_offset)"
    by simp
  then show ?thesis by (simp add: h265_convert_byte_stream_to_hvc_def)
qed

theorem convert_wrong_offset_fails_witness:
  "convert_reaches ([0, 0, 1, 0xAA, 0, 0, 0, 1, 0xBB, 0xCC, 0xDD], 0, 0)
                   ([0, 0, 1, 0xAA, 0, 0, 0, 1, 0xBB, 0xCC, 0xDD], 0, 0)
   \<and> (0::nat) < length [0, 0, 1, 0xAA, 0, 0, 0, 1, 0xBB, 0xCC, 0xDD :: guint8]
   \<and> h265_byte_stream_next_nal [0, 0, 1, 0xAA, 0, 0, 0, 1, 0xBB, 0xCC, 0xDD] 0 11 0
       = Inr (Some 3, 1)
   \<and> int 3 - int 0 \<noteq> 4
   \<and> h265_convert_byte_stream_to_hvc (Some [0, 0, 1, 0xAA, 0, 0, 0, 1, 0xBB, 0xCC, 0xDD])
       = Inl Assert_nal_body_offset"
proof -
  let ?m = "[0, 0, 1, 0xAA, 0, 0, 0, 1, 0xBB, 0xCC, 0xDD] :: guint8 list"
  have h1: "convert_reaches (?m, 0, 0) (?m, 0, 0)" by (rule convert_reaches.start)
  have h2: "(0::nat) < length ?m" by simp
  have h3': "h265_byte_stream_next_nal ?m 0 11 0 = Inr (Some 3, 1)" by code_simp
  then have h3: "h265_byte_stream_next_nal ?m 0 (of_int (int (length ?m) - int 0)) 0
                   = Inr (Some 3, 1)" by simp
  have h4: "int 3 - int 0 \<noteq> 4" by simp
  from convert_wrong_offset_fails [OF h1 h2 h3 h4] h1 h2 h3' show ?thesis by simp
qed

text \<open>
  C4 as stated fails: on the buffer \<^verbatim>\<open>00 00 01 AA 00 00 00 01 BB CC DD\<close> the rewrite does
  not return \<^verbatim>\<open>FALSE\<close>; the first unit has the nonzero size 1 and starts 3 bytes after
  the cursor, so the run stops on the assertion and returns no value.
\<close>

theorem convert_wrong_offset_counterexample:
  "h265_convert_byte_stream_to_hvc (Some [0, 0, 1, 0xAA, 0, 0, 0, 1, 0xBB, 0xCC, 0xDD])
     = Inl Assert_nal_body_offset
   \<and> h265_convert_byte_stream_to_hvc (Some [0, 0, 1, 0xAA, 0, 0, 0, 1, 0xBB, 0xCC, 0xDD])
       \<noteq> Inr (False, Some [0, 0, 1, 0xAA, 0, 0, 0, 1, 0xBB, 0xCC, 0xDD])"
proof -
  have "h265_convert_byte_stream_to_hvc (Some [0, 0, 1, 0xAA, 0, 0, 0, 1, 0xBB, 0xCC, 0xDD])
     = Inl Assert_nal_body_offset"
    by code_simp
  then show ?thesis by simp
qed

section \<open>The rewriter on a well-formed byte stream\<close>

subsection \<open>The window as the last bytes read\<close>

lemma m8: "(0xFF :: guint32) = mask 8"
  by (simp add: mask_eq_exp_minus_1)

lemma m16: "(0xFFFF :: guint32) = mask 16"
  by (simp add: mask_eq_exp_minus_1)

lemma m24: "(0x00FFFFFF :: guint32) = mask 24"
  by (simp add: mask_eq_exp_minus_1)

lemma window_low8: "(push_bit 8 (flag :: guint32) OR (ucast (b :: guint8) AND 0xFF)) AND 0xFF = ucast b"
  by (auto simp: bit_eq_iff bit_simps m8 dest: bit_imp_le_length)

lemma window_low16: "(push_bit 8 (flag :: guint32) OR (ucast (b :: guint8) AND 0xFF)) AND 0xFFFF
    = push_bit 8 (flag AND 0xFF) OR ucast b"
  by (auto simp: bit_eq_iff bit_simps m8 m16 dest: bit_imp_le_length)

lemma window_low24: "(push_bit 8 (flag :: guint32) OR (ucast (b :: guint8) AND 0xFF)) AND 0x00FFFFFF
    = push_bit 8 (flag AND 0xFFFF) OR ucast b"
  by (auto simp: bit_eq_iff bit_simps m8 m16 m24 dest: bit_imp_le_length)

lemma ucast_byte_eq_iff: "(ucast (b :: guint8) :: guint32) = ucast c \<longleftrightarrow> b = c"
proof
  assume eq: "(ucast b :: guint32) = ucast c"
  show "b = c"
  proof (rule bit_word_eqI)
    fix n assume "n < LENGTH(8)"
    then have "bit b n = bit (ucast b :: guint32) n" by (simp add: bit_simps)
    also have "\<dots> = bit (ucast c :: guint32) n" by (simp only: eq)
    also from \<open>n < LENGTH(8)\<close> have "\<dots> = bit c n" by (simp add: bit_simps)
    finally show "bit b n = bit c n" .
  qed
qed simp

lemma shifted_or_byte_low:
  "(push_bit 8 (x :: guint32) OR ucast (b :: guint8)) AND 0xFF = ucast b"
  by (auto simp: bit_eq_iff bit_simps m8 dest: bit_imp_le_length)

lemma shifted_or_byte_high:
  "drop_bit 8 (push_bit 8 ((x :: guint32) AND 0xFFFF) OR ucast (b :: guint8)) = x AND 0xFFFF"
  by (auto simp: bit_eq_iff bit_simps m16 dest: bit_imp_le_length)

lemma shifted_or_byte_high8:
  "drop_bit 8 (push_bit 8 ((x :: guint32) AND 0xFF) OR ucast (b :: guint8)) = x AND 0xFF"
  by (auto simp: bit_eq_iff bit_simps m8 dest: bit_imp_le_length)

lemma window_match_imp:
  fixes flag :: guint32 and b :: guint8
  assumes "(push_bit 8 flag OR (ucast b AND 0xFF)) AND 0x00FFFFFF = 0x00000001"
  shows "flag AND 0xFFFF = 0 \<and> b = 1"
proof -
  from assms have eq: "push_bit 8 (flag AND 0xFFFF) OR ucast b = (1 :: guint32)"
    by (simp only: window_low24)
  have "flag AND 0xFFFF = drop_bit 8 (push_bit 8 (flag AND 0xFFFF) OR ucast b)"
    by (simp only: shifted_or_byte_high)
  also have "\<dots> = 0" by (simp only: eq) simp
  finally have a: "flag AND 0xFFFF = 0" .
  have "(ucast b :: guint32) = (push_bit 8 (flag AND 0xFFFF) OR ucast b) AND 0xFF"
    by (simp only: shifted_or_byte_low)
  also have "\<dots> = ucast (1 :: guint8)" by (simp only: eq) simp
  finally have "b = 1" by (simp only: ucast_byte_eq_iff)
  with a show ?thesis by simp
qed

lemma window_low8_zero:
  fixes flag :: guint32 and b :: guint8
  shows "(push_bit 8 flag OR (ucast b AND 0xFF)) AND 0xFF = 0 \<longleftrightarrow> b = 0"
proof -
  have "(ucast b :: guint32) = 0 \<longleftrightarrow> (ucast b :: guint32) = ucast (0 :: guint8)" by simp
  also have "\<dots> \<longleftrightarrow> b = 0" by (simp only: ucast_byte_eq_iff)
  finally show ?thesis by (simp only: window_low8)
qed

lemma window_low16_zero:
  fixes flag :: guint32 and b :: guint8
  shows "(push_bit 8 flag OR (ucast b AND 0xFF)) AND 0xFFFF = 0 \<longleftrightarrow> flag AND 0xFF = 0 \<and> b = 0"
proof
  assume "(push_bit 8 flag OR (ucast b AND 0xFF)) AND 0xFFFF = 0"
  then have eq: "push_bit 8 (flag AND 0xFF) OR ucast b = (0 :: guint32)"
    by (simp only: window_low16)
  have "flag AND 0xFF = drop_bit 8 (push_bit 8 (flag AND 0xFF) OR ucast b)"
    by (simp only: shifted_or_byte_high8)
  also have "\<dots> = 0" by (simp only: eq) simp
  finally have a: "flag AND 0xFF = 0" .
  have "(ucast b :: guint32) = (push_bit 8 (flag AND 0xFF) OR ucast b) AND 0xFF"
    by (simp only: shifted_or_byte_low)
  also have "\<dots> = ucast (0 :: guint8)" by (simp only: eq) simp
  finally have "b = 0" by (simp only: ucast_byte_eq_iff)
  with a show "flag AND 0xFF = 0 \<and> b = 0" by simp
next
  assume "flag AND 0xFF = 0 \<and> b = 0"
  then have "push_bit 8 (flag AND 0xFF) OR ucast b = (0 :: guint32)" by simp
  then show "(push_bit 8 flag OR (ucast b AND 0xFF)) AND 0xFFFF = 0"
    by (simp only: window_low16)
qed

lemma window_zero_byte_no_match:
  "(push_bit 8 (flag :: guint32) OR (ucast (0 :: guint8) AND 0xFF)) AND 0x00FFFFFF \<noteq> 0x00000001"
  using window_match_imp [of flag 0] by auto

lemma window_after_start_code:
  "push_bit 8
     (push_bit 8
        (push_bit 8 (push_bit 8 (f :: guint32) OR (ucast (0 :: guint8) AND 0xFF))
           OR (ucast (0 :: guint8) AND 0xFF))
        OR (ucast (0 :: guint8) AND 0xFF))
     OR (ucast (1 :: guint8) AND 0xFF) = 1"
  by (simp add: push_bit_or)

lemma ucast_low_byte: "(ucast ((y::guint32) AND 0xFF) :: guint8) = ucast y"
  by (auto simp: bit_eq_iff bit_simps m8 dest: bit_imp_le_length)

lemma of_nat_mod_256: "(of_nat (n mod 256) :: guint8) = of_nat n"
  by (simp add: word_of_nat_eq_iff take_bit_eq_mod)

lemma size_byte:
  "(ucast (drop_bit k (w::guint32) AND 0xFF) :: guint8) = of_nat (unat w div 2 ^ k mod 256)"
proof -
  have "(ucast (drop_bit k w AND 0xFF) :: guint8) = ucast (drop_bit k w)"
    by (rule ucast_low_byte)
  also have "\<dots> = of_nat (unat (drop_bit k w))" by simp
  also have "unat (drop_bit k w) = drop_bit k (unat w)"
    by (rule unat_drop_bit_eq)
  also have "drop_bit k (unat w) = unat w div 2 ^ k"
    by (rule drop_bit_eq_div)
  finally show ?thesis by (simp only: of_nat_mod_256)
qed

lemma size_byte0:
  "(ucast ((w::guint32) AND 0xFF) :: guint8) = of_nat (unat w mod 256)"
  using size_byte [of 0 w] by simp

subsection \<open>The loop over a payload and over a start code\<close>

lemma has_start_code_fresh: "has_start_code (0xFF # 0xFF # p) \<longleftrightarrow> has_start_code p"
proof (cases p)
  case Nil
  then show ?thesis by simp
next
  case (Cons a q)
  then show ?thesis by (cases q) simp_all
qed

lemma find_next_start_skip:
  assumes "\<not> has_start_code (x # y # p)"
    and "flag AND 0xFF = 0 \<longleftrightarrow> y = 0"
    and "flag AND 0xFFFF = 0 \<longleftrightarrow> x = 0 \<and> y = 0"
    and "mem = pre @ p @ rest"
    and "length pre + length p \<le> end"
  shows "\<exists>flag'. find_next_start mem end ns (length pre) flag s
                  = find_next_start mem end ns (length pre + length p) flag' s"
  using assms
proof (induction p arbitrary: x y flag pre)
  case Nil
  then show ?case by auto
next
  case (Cons b bs)
  define flag' where "flag' = push_bit 8 flag OR (ucast (mem ! length pre) AND 0xFF)"
  from Cons.prems(4) have byte: "mem ! length pre = b" by simp
  from Cons.prems(5) have lt: "length pre < end" by simp
  have no_match: "flag' AND 0x00FFFFFF \<noteq> 0x00000001"
  proof
    assume "flag' AND 0x00FFFFFF = 0x00000001"
    from window_match_imp [OF this [unfolded flag'_def byte]] Cons.prems(3)
    have "x = 0 \<and> y = 0 \<and> b = 1" by simp
    with Cons.prems(1) show False by simp
  qed
  then have step: "find_next_start mem end ns (length pre) flag s
                   = find_next_start mem end ns (Suc (length pre)) flag' s"
    by (simp only: find_next_start_unfold [OF lt, of mem ns flag s, folded flag'_def] if_False)
  from Cons.prems(1) have 1: "\<not> has_start_code (y # b # bs)" by auto
  have 2: "flag' AND 0xFF = 0 \<longleftrightarrow> b = 0"
    unfolding flag'_def byte by (rule window_low8_zero)
  have 3: "flag' AND 0xFFFF = 0 \<longleftrightarrow> y = 0 \<and> b = 0"
    unfolding flag'_def byte using Cons.prems(2) by (simp only: window_low16_zero)
  from Cons.prems(4) have 4: "mem = (pre @ [b]) @ bs @ rest" by simp
  from Cons.prems(5) have 5: "length (pre @ [b]) + length bs \<le> end" by simp
  from Cons.IH [OF 1 2 3 4 5] step show ?case by simp
qed

lemma find_next_start_code4:
  assumes "mem = pre @ [0, 0, 0, 1] @ rest" and "length pre + 4 \<le> end"
  shows "find_next_start mem end ns (length pre) flag s
           = (length pre + 4, of_int (int (length pre + 4) - 4 - int ns))"
proof -
  let ?c = "length pre"
  from assms(1) have b: "mem ! ?c = 0" "mem ! Suc ?c = 0" "mem ! Suc (Suc ?c) = 0"
      "mem ! Suc (Suc (Suc ?c)) = 1"
    by (simp_all add: nth_append)
  from assms(2) have lt: "?c < end" "Suc ?c < end" "Suc (Suc ?c) < end" "Suc (Suc (Suc ?c)) < end"
    by simp_all
  define f1 where "f1 = push_bit 8 flag OR (ucast (0 :: guint8) AND 0xFF)"
  define f2 where "f2 = push_bit 8 f1 OR (ucast (0 :: guint8) AND 0xFF)"
  define f3 where "f3 = push_bit 8 f2 OR (ucast (0 :: guint8) AND 0xFF)"
  define f4 where "f4 = push_bit 8 f3 OR (ucast (1 :: guint8) AND 0xFF)"
  have n1: "f1 AND 0x00FFFFFF \<noteq> 1" unfolding f1_def by (rule window_zero_byte_no_match)
  have n2: "f2 AND 0x00FFFFFF \<noteq> 1" unfolding f2_def by (rule window_zero_byte_no_match)
  have n3: "f3 AND 0x00FFFFFF \<noteq> 1" unfolding f3_def by (rule window_zero_byte_no_match)
  have m4: "f4 = 1" unfolding f4_def f3_def f2_def f1_def by (rule window_after_start_code)
  then have m4': "f4 AND 0x00FFFFFF = 1" by simp
  have "find_next_start mem end ns ?c flag s = find_next_start mem end ns (Suc ?c) f1 s"
    using n1 by (simp only: find_next_start_unfold [OF lt(1)] b f1_def [symmetric] if_False)
  also have "\<dots> = find_next_start mem end ns (Suc (Suc ?c)) f2 s"
    using n2 by (simp only: find_next_start_unfold [OF lt(2)] b f2_def [symmetric] if_False)
  also have "\<dots> = find_next_start mem end ns (Suc (Suc (Suc ?c))) f3 s"
    using n3 by (simp only: find_next_start_unfold [OF lt(3)] b f3_def [symmetric] if_False)
  also have "\<dots> = (Suc (Suc (Suc (Suc ?c))),
                     of_int (int (Suc (Suc (Suc (Suc ?c)))) - 4 - int ns))"
    using m4 m4'
    by (simp only: find_next_start_unfold [OF lt(4)] b f4_def [symmetric] if_True simp_thms)
  also have "Suc (Suc (Suc (Suc ?c))) = ?c + 4" by simp
  finally show ?thesis .
qed

subsection \<open>The scanner on a unit of a well-formed stream\<close>

lemma next_nal_unit:
  assumes mem: "mem = pre @ [0, 0, 0, 1] @ p @ rest"
    and p: "p \<noteq> []" "\<not> has_start_code p"
    and rest: "rest = [] \<or> (\<exists>rest'. rest' \<noteq> [] \<and> rest = [0, 0, 0, 1] @ rest')"
    and len: "length mem < 2 ^ 32"
  shows "h265_byte_stream_next_nal mem (length pre)
           (of_int (int (length mem) - int (length pre))) s
         = Inr (Some (length pre + 4), of_nat (length p))"
proof -
  let ?c = "length pre"
  define L where "L = 4 + length p + length rest"
  define len :: guint32 where "len = of_int (int (length mem) - int ?c)"
  from mem have lm: "length mem = ?c + L" by (simp add: L_def)
  then have "int (length mem) - int ?c = int L" by simp
  then have len_L: "len = of_nat L" by (simp only: len_def of_int_of_nat_eq)
  from lm len have "L < 2 ^ 32" by simp
  then have unat_len: "unat len = L" unfolding len_L by (rule unat_of_nat_guint32)
  from p(1) have L5: "5 \<le> L" by (cases p) (simp_all add: L_def)
  from unat_len L5 have len_ne: "len \<noteq> 0" by auto
  from unat_len L5 have len_ge3: "\<not> len < 3" by (simp add: word_less_nat_alt)
  from unat_len L5 have len_ge4: "4 \<le> len" by (simp add: word_le_nat_alt)
  from mem have bytes: "mem ! ?c = 0" "mem ! (?c + 1) = 0" "mem ! (?c + 2) = 0" "mem ! (?c + 3) = 1"
    by (simp_all add: nth_append)
  with len_ge4 have head: "locate_head mem ?c len = 4"
    by (simp add: locate_head_def)
  define e where "e = ?c + unat len"
  define ns where "ns = ?c + unat (locate_head mem ?c len)"
  have e: "e = length mem" by (simp add: e_def unat_len lm)
  have ns: "ns = ?c + 4" by (simp add: ns_def head)
  from p(2) have 1: "\<not> has_start_code (0xFF # 0xFF # p)" by (simp add: has_start_code_fresh)
  have 2: "(0xFFFFFFFF :: guint32) AND 0xFF = 0 \<longleftrightarrow> (0xFF :: guint8) = 0" by simp
  have 3: "(0xFFFFFFFF :: guint32) AND 0xFFFF = 0 \<longleftrightarrow> (0xFF :: guint8) = 0 \<and> (0xFF :: guint8) = 0"
    by simp
  from mem have 4: "mem = (pre @ [0, 0, 0, 1]) @ p @ rest" by simp
  have 5: "length (pre @ [0, 0, 0, 1]) + length p \<le> e" by (simp add: e lm L_def)
  have pre4: "length (pre @ [0, 0, 0, 1]) = ns" by (simp add: ns)
  from find_next_start_skip [OF 1 2 3 4 5, of ns s, unfolded pre4]
  obtain flag' where "find_next_start mem e ns ns 0xFFFFFFFF s
      = find_next_start mem e ns (ns + length p) flag' s"
    by blast
  then have skip: "find_next_start mem e ns ns 0xFFFFFFFF s
      = find_next_start mem e ns (?c + 4 + length p) flag' s"
    by (simp only: ns)
  have size: "(of_int (int (?c + 4 + length p) - int (?c + 4)) :: guint32) = of_nat (length p)"
  proof -
    have "int (?c + 4 + length p) - int (?c + 4) = int (length p)" by simp
    then show ?thesis by (simp only: of_int_of_nat_eq)
  qed
  have loop: "(case find_next_start mem e ns ns 0xFFFFFFFF s of
                (cur, nal_size') \<Rightarrow>
                  if e \<le> cur
                  then Inr (if e \<le> ns then None else Some ns, of_int (int e - int ns))
                  else Inr (Some ns, nal_size'))
              = (Inr (Some (?c + 4), of_nat (length p)) :: assertion + nat option \<times> guint32)"
    using rest
  proof
    assume "rest = []"
    then have end_eq: "e = ?c + 4 + length p" by (simp add: e lm L_def)
    then have "find_next_start mem e ns (?c + 4 + length p) flag' s = (e, s)"
      by (simp add: find_next_start_done)
    with skip have "find_next_start mem e ns ns 0xFFFFFFFF s = (e, s)" by simp
    moreover from p(1) have "\<not> e \<le> ns" by (simp add: end_eq ns)
    moreover have "(of_int (int e - int ns) :: guint32) = of_nat (length p)"
      unfolding end_eq ns by (rule size)
    ultimately show ?thesis by (simp add: ns)
  next
    assume "\<exists>rest'. rest' \<noteq> [] \<and> rest = [0, 0, 0, 1] @ rest'"
    then obtain rest' where r: "rest' \<noteq> []" "rest = [0, 0, 0, 1] @ rest'" by blast
    from mem r(2) have m: "mem = (pre @ [0, 0, 0, 1] @ p) @ [0, 0, 0, 1] @ rest'" by simp
    from r have lt: "?c + 4 + length p + 4 < e" by (simp add: e lm L_def)
    then have le: "length (pre @ [0, 0, 0, 1] @ p) + 4 \<le> e" by simp
    have l: "length (pre @ [0, 0, 0, 1] @ p) = ?c + 4 + length p" by simp
    from find_next_start_code4 [OF m le, of ns flag' s, unfolded l]
    have "find_next_start mem e ns (?c + 4 + length p) flag' s
            = (?c + 4 + length p + 4, of_int (int (?c + 4 + length p + 4) - 4 - int ns))" .
    moreover have "int (?c + 4 + length p + 4) - 4 - int ns = int (length p)"
      by (simp add: ns)
    ultimately have "find_next_start mem e ns (?c + 4 + length p) flag' s
            = (?c + 4 + length p + 4, of_nat (length p))"
      by (simp only: of_int_of_nat_eq)
    with skip have "find_next_start mem e ns ns 0xFFFFFFFF s
            = (?c + 4 + length p + 4, of_nat (length p))" by simp
    with lt show ?thesis by (simp add: ns)
  qed
  have "h265_byte_stream_next_nal mem ?c len s
          = (case find_next_start mem e ns ns 0xFFFFFFFF s of
                (cur, nal_size') \<Rightarrow>
                  if e \<le> cur
                  then Inr (if e \<le> ns then None else Some ns, of_int (int e - int ns))
                  else Inr (Some ns, nal_size'))"
    using len_ne len_ge3
    by (simp add: h265_byte_stream_next_nal_def e_def [symmetric] ns_def [symmetric])
  with loop show ?thesis by (simp only: len_def)
qed

subsection \<open>The rewrite of the whole stream\<close>

lemma start_code_to_size_append:
  assumes "n < 2 ^ 32"
  shows "start_code_to_size (pre @ [a, b, c, d] @ rest) (length pre) (of_nat n)
           = pre @ be32 n @ rest"
proof -
  define w :: guint32 where "w = of_nat n"
  from assms have un: "unat w = n" unfolding w_def by (rule unat_of_nat_guint32)
  have b3: "(ucast (drop_bit 24 w AND 0xFF) :: guint8) = of_nat (n div 2 ^ 24 mod 256)"
    and b2: "(ucast (drop_bit 16 w AND 0xFF) :: guint8) = of_nat (n div 2 ^ 16 mod 256)"
    and b1: "(ucast (drop_bit 8 w AND 0xFF) :: guint8) = of_nat (n div 2 ^ 8 mod 256)"
    by (simp_all only: size_byte un)
  have b0: "(ucast (w AND 0xFF) :: guint8) = of_nat (n mod 256)"
    by (simp only: size_byte0 un)
  have "(pre @ [a, b, c, d] @ rest)
          [length pre := x3, length pre + 1 := x2, length pre + 2 := x1, length pre + 3 := x0]
        = pre @ [x3, x2, x1, x0] @ rest" for x3 x2 x1 x0 :: guint8
    by (simp add: list_update_append)
  then show ?thesis
    unfolding start_code_to_size_def w_def [symmetric] b3 b2 b1 b0 be32_def by simp
qed

lemma byte_stream_Cons: "byte_stream (nal # nals) = [0, 0, 0, 1] @ nal @ byte_stream nals"
  by (simp add: byte_stream_def)

lemma length_prefixed_Cons:
  "length_prefixed (nal # nals) = be32 (length nal) @ nal @ length_prefixed nals"
  by (simp add: length_prefixed_def)

lemma byte_stream_rest:
  assumes "\<forall>nal\<in>set nals. nal \<noteq> [] \<and> \<not> has_start_code nal"
  shows "byte_stream nals = []
         \<or> (\<exists>rest'. rest' \<noteq> [] \<and> byte_stream nals = [0, 0, 0, 1] @ rest')"
proof (cases nals)
  case Nil
  then show ?thesis by (simp add: byte_stream_def)
next
  case (Cons nal nals')
  with assms have "nal \<noteq> []" by simp
  then have "nal @ byte_stream nals' \<noteq> []" by simp
  moreover from Cons have "byte_stream nals = [0, 0, 0, 1] @ (nal @ byte_stream nals')"
    by (simp only: byte_stream_Cons)
  ultimately show ?thesis by blast
qed

lemma convert_iter_unit:
  assumes mem: "mem = pre @ [0, 0, 0, 1] @ p @ rest"
    and p: "p \<noteq> []" "\<not> has_start_code p"
    and rest: "rest = [] \<or> (\<exists>rest'. rest' \<noteq> [] \<and> rest = [0, 0, 0, 1] @ rest')"
    and len: "length mem < 2 ^ 32"
  shows "convert_iter mem (length pre) s
         = Continue (pre @ be32 (length p) @ p @ rest) (length pre + 4 + length p)
             (of_nat (length p))"
proof -
  from mem have lt: "length pre < length mem" by simp
  from mem len have pl: "length p < 2 ^ 32" by simp
  then have un: "unat (of_nat (length p) :: guint32) = length p"
    by (rule unat_of_nat_guint32)
  with p(1) have nz: "(of_nat (length p) :: guint32) \<noteq> 0" by auto
  have wr: "start_code_to_size mem (length pre) (of_nat (length p))
              = pre @ be32 (length p) @ p @ rest"
    unfolding mem using pl by (rule start_code_to_size_append)
  note sc = next_nal_unit [OF mem p rest len, of s]
  from lt nz show ?thesis
    unfolding convert_iter_def Let_def sc by (simp add: un wr)
qed

lemma length_be32: "length (be32 n) = 4"
  by (simp add: be32_def)

lemma convert_loop_byte_stream:
  assumes "\<forall>nal\<in>set nals. nal \<noteq> [] \<and> \<not> has_start_code nal"
    and "length (pre @ byte_stream nals) < 2 ^ 32"
  shows "convert_loop (pre @ byte_stream nals) (length pre) s
           = Inr (True, pre @ length_prefixed nals)"
  using assms
proof (induction nals arbitrary: pre s)
  case Nil
  have "convert_iter pre (length pre) s = Return (Inr (True, pre))"
    by (simp add: convert_iter_def)
  then show ?case
    by (simp add: convert_loop.simps [of pre "length pre" s] byte_stream_def length_prefixed_def)
next
  case (Cons nal nals)
  let ?mem = "pre @ byte_stream (nal # nals)"
  let ?pre' = "pre @ be32 (length nal) @ nal"
  from Cons.prems(1) have nal: "nal \<noteq> []" "\<not> has_start_code nal"
    and rest_ok: "\<forall>nal\<in>set nals. nal \<noteq> [] \<and> \<not> has_start_code nal"
    by simp_all
  have mem: "?mem = pre @ [0, 0, 0, 1] @ nal @ byte_stream nals"
    by (simp only: byte_stream_Cons)
  from convert_iter_unit [OF mem nal byte_stream_rest [OF rest_ok] Cons.prems(2), of s]
  have "convert_iter ?mem (length pre) s
          = Continue (?pre' @ byte_stream nals) (length ?pre') (of_nat (length nal))"
    by (simp add: length_be32)
  then have "convert_loop ?mem (length pre) s
          = convert_loop (?pre' @ byte_stream nals) (length ?pre') (of_nat (length nal))"
    by (subst convert_loop.simps) simp
  moreover from Cons.prems(2) have "length (?pre' @ byte_stream nals) < 2 ^ 32"
    by (simp add: byte_stream_Cons length_be32)
  from Cons.IH [OF rest_ok this]
  have "convert_loop (?pre' @ byte_stream nals) (length ?pre') (of_nat (length nal))
          = Inr (True, ?pre' @ length_prefixed nals)" .
  ultimately show ?case by (simp add: length_prefixed_Cons)
qed

lemma length_length_prefixed: "length (length_prefixed nals) = length (byte_stream nals)"
  by (induction nals) (simp_all add: length_prefixed_def byte_stream_def length_be32)

lemma unat_byte: "unat (of_nat (x mod 256) :: guint8) = x mod 256"
  by (simp add: unat_of_nat)

lemma be32_value_be32:
  assumes "n < 2 ^ 32"
  shows "be32_value (be32 n) = n"
proof -
  have top: "n div 2 ^ 24 mod 256 = n div 2 ^ 24"
    using assms by (simp add: less_mult_imp_div_less)
  have d3: "n div 2 ^ 24 = n div 2 ^ 16 div 256" by (simp add: div_mult2_eq [symmetric])
  have d2: "n div 2 ^ 16 = n div 2 ^ 8 div 256" by (simp add: div_mult2_eq [symmetric])
  have d1: "n div 2 ^ 8 = n div 256" by simp
  have "be32_value (be32 n)
      = ((n div 2 ^ 24 mod 256 * 256 + n div 2 ^ 16 mod 256) * 256 + n div 2 ^ 8 mod 256) * 256
          + n mod 256"
    by (simp only: be32_def be32_value_def foldl.simps unat_byte) simp
  also have "n div 2 ^ 24 mod 256 * 256 + n div 2 ^ 16 mod 256 = n div 2 ^ 16"
    by (subst top, subst d3) (rule div_mult_mod_eq)
  also have "n div 2 ^ 16 * 256 + n div 2 ^ 8 mod 256 = n div 2 ^ 8"
    unfolding d2 by (rule div_mult_mod_eq)
  also have "n div 2 ^ 8 * 256 + n mod 256 = n"
    unfolding d1 by (rule div_mult_mod_eq)
  finally show ?thesis .
qed

lemma length_nal_le_byte_stream:
  "nal \<in> set nals \<Longrightarrow> length nal \<le> length (byte_stream nals)"
  by (induction nals) (auto simp: byte_stream_def)

text \<open>
  C1.  Let a buffer consist of N NAL units, each preceded by the start code
  \<^verbatim>\<open>00 00 00 01\<close>, each with a nonempty payload that holds no start code, the whole
  shorter than \<open>2 ^ 32\<close> bytes (the length is passed to the scanner as a \<^verbatim>\<open>guint32\<close>).
  Then the rewrite returns \<^verbatim>\<open>TRUE\<close> and leaves a buffer of the same length, in which
  each start code is replaced by the length of its unit as a four-byte big-endian
  number and the payloads are unchanged and in the same order.  The buffer
  \<^verbatim>\<open>00 00 00 01 AA BB 00 00 00 01 CC\<close> becomes \<^verbatim>\<open>00 00 00 02 AA BB 00 00 00 01 CC\<close>.
\<close>

theorem convert_byte_stream:
  assumes "\<forall>nal\<in>set nals. nal \<noteq> [] \<and> \<not> has_start_code nal"
    and "length (byte_stream nals) < 2 ^ 32"
  shows "h265_convert_byte_stream_to_hvc (Some (byte_stream nals))
           = Inr (True, Some (length_prefixed nals))
         \<and> length (length_prefixed nals) = length (byte_stream nals)
         \<and> (\<forall>nal\<in>set nals. length (be32 (length nal)) = 4
               \<and> be32_value (be32 (length nal)) = length nal)"
proof -
  from assms(2) have "length ([] @ byte_stream nals) < 2 ^ 32" by simp
  from convert_loop_byte_stream [OF assms(1) this, of 0]
  have "convert_loop (byte_stream nals) 0 0 = Inr (True, length_prefixed nals)" by simp
  then have "h265_convert_byte_stream_to_hvc (Some (byte_stream nals))
           = Inr (True, Some (length_prefixed nals))"
    by (simp add: h265_convert_byte_stream_to_hvc_def)
  moreover have "be32_value (be32 (length nal)) = length nal" if "nal \<in> set nals" for nal
  proof -
    from length_nal_le_byte_stream [OF that] assms(2) have "length nal < 2 ^ 32" by simp
    then show ?thesis by (rule be32_value_be32)
  qed
  ultimately show ?thesis
    by (simp add: length_length_prefixed length_be32)
qed

theorem convert_byte_stream_witness:
  "[0xAA, 0xBB :: guint8] \<noteq> [] \<and> \<not> has_start_code [0xAA, 0xBB]
   \<and> [0xCC :: guint8] \<noteq> [] \<and> \<not> has_start_code [0xCC]
   \<and> length (byte_stream [[0xAA, 0xBB], [0xCC]]) < 2 ^ 32
   \<and> byte_stream [[0xAA, 0xBB], [0xCC]] = [0, 0, 0, 1, 0xAA, 0xBB, 0, 0, 0, 1, 0xCC]
   \<and> length_prefixed [[0xAA, 0xBB], [0xCC]] = [0, 0, 0, 2, 0xAA, 0xBB, 0, 0, 0, 1, 0xCC]
   \<and> h265_convert_byte_stream_to_hvc (Some [0, 0, 0, 1, 0xAA, 0xBB, 0, 0, 0, 1, 0xCC])
       = Inr (True, Some [0, 0, 0, 2, 0xAA, 0xBB, 0, 0, 0, 1, 0xCC])
   \<and> be32_value (be32 (length [0xAA, 0xBB :: guint8])) = 2"
proof -
  let ?nals = "[[0xAA, 0xBB], [0xCC]] :: guint8 list list"
  have bs: "byte_stream ?nals = [0, 0, 0, 1, 0xAA, 0xBB, 0, 0, 0, 1, 0xCC]"
    by (simp add: byte_stream_def)
  have lp: "length_prefixed ?nals = [0, 0, 0, 2, 0xAA, 0xBB, 0, 0, 0, 1, 0xCC]"
    by (simp add: length_prefixed_def be32_def)
  have u: "[0xAA, 0xBB :: guint8] \<noteq> [] \<and> \<not> has_start_code [0xAA, 0xBB]
      \<and> [0xCC :: guint8] \<noteq> [] \<and> \<not> has_start_code [0xCC]" by simp
  then have h1: "\<forall>nal\<in>set ?nals. nal \<noteq> [] \<and> \<not> has_start_code nal" by simp
  have h2: "length (byte_stream ?nals) < 2 ^ 32" by (simp add: bs)
  from convert_byte_stream [OF h1 h2]
  have "h265_convert_byte_stream_to_hvc (Some (byte_stream ?nals))
           = Inr (True, Some (length_prefixed ?nals))"
    and v: "be32_value (be32 (length [0xAA, 0xBB :: guint8])) = length [0xAA, 0xBB :: guint8]"
    by simp_all
  then have "h265_convert_byte_stream_to_hvc (Some [0, 0, 0, 1, 0xAA, 0xBB, 0, 0, 0, 1, 0xCC])
       = Inr (True, Some [0, 0, 0, 2, 0xAA, 0xBB, 0, 0, 0, 1, 0xCC])"
    by (simp only: bs lp)
  moreover from v have "be32_value (be32 (length [0xAA, 0xBB :: guint8])) = 2" by simp
  ultimately show ?thesis using u h2 bs lp by blast
qed

section \<open>The profile selector\<close>

subsection \<open>The selection as a fold over the candidates\<close>

lemma value_offer:
  "find_best_profile_value f g d (Some v)
     = foldl (offer g) d (filter (\<lambda>p. p \<noteq> 0) (map f (value_strings v)))"
  by (auto simp: find_best_profile_value_def value_strings_def offer_def Let_def
           split: GValue.splits option.splits)

lemma values_offer:
  "foldl (\<lambda>d v. find_best_profile_value f g d (Some v)) d vs
     = foldl (offer g) d (filter (\<lambda>p. p \<noteq> 0) (map f (concat (map value_strings vs))))"
  by (induction vs arbitrary: d) (simp_all add: value_offer)

lemma structure_offer:
  "find_best_profile_structure f g d st
     = foldl (offer g) d (filter (\<lambda>p. p \<noteq> 0) (map f (structure_strings st)))"
proof (cases "map_of st ''profile''")
  case None
  then show ?thesis
    by (simp add: find_best_profile_structure_def structure_strings_def)
next
  case (Some v)
  then show ?thesis
  proof (cases v)
    case (GString g_str)
    with Some show ?thesis
      by (simp add: find_best_profile_structure_def structure_strings_def value_offer)
  next
    case (GList vs)
    with Some show ?thesis
      by (simp add: find_best_profile_structure_def structure_strings_def values_offer)
  next
    case GOther
    with Some show ?thesis
      by (simp add: find_best_profile_structure_def structure_strings_def)
  qed
qed

lemma caps_offer:
  "foldl (find_best_profile_structure f g) d caps
     = foldl (offer g) d (resolved_candidates f caps)"
  by (induction caps arbitrary: d)
     (simp_all add: resolved_candidates_def profile_strings_def structure_offer)

lemma find_best_profile_candidates:
  "find_best_profile f g caps
     = best_profile (foldl (offer g)
         \<lparr>best_profile = GST_VAAPI_PROFILE_UNKNOWN, best_score = 0\<rparr> (resolved_candidates f caps))"
  by (simp add: find_best_profile_def caps_offer)

lemma foldl_offer_last_max:
  assumes "cs \<noteq> []"
  shows "(\<forall>p\<in>set cs. g p < best_score d) \<and> foldl (offer g) d cs = d
       \<or> (\<exists>pre post. cs = pre @ best_profile (foldl (offer g) d cs) # post
            \<and> best_score (foldl (offer g) d cs) = g (best_profile (foldl (offer g) d cs))
            \<and> \<not> g (best_profile (foldl (offer g) d cs)) < best_score d
            \<and> (\<forall>p\<in>set pre. g p \<le> g (best_profile (foldl (offer g) d cs)))
            \<and> (\<forall>p\<in>set post. g p < g (best_profile (foldl (offer g) d cs))))"
  using assms
proof (induction cs rule: rev_nonempty_induct)
  case (single x)
  show ?case
  proof (cases "g x < best_score d")
    case True
    then show ?thesis by (simp add: offer_def)
  next
    case False
    then show ?thesis
      by (intro disjI2 exI [of _ "[]"]) (simp add: offer_def)
  qed
next
  case (snoc x xs)
  let ?d = "foldl (offer g) d xs"
  have step: "foldl (offer g) d (xs @ [x]) = offer g ?d x" by simp
  show ?case
  proof (cases "g x < best_score ?d")
    case lt: True
    then have same: "foldl (offer g) d (xs @ [x]) = ?d" by (simp add: offer_def)
    from snoc.IH show ?thesis
    proof
      assume a: "(\<forall>p\<in>set xs. g p < best_score d) \<and> ?d = d"
      with lt same show ?thesis by auto
    next
      assume "\<exists>pre post. xs = pre @ best_profile ?d # post
            \<and> best_score ?d = g (best_profile ?d)
            \<and> \<not> g (best_profile ?d) < best_score d
            \<and> (\<forall>p\<in>set pre. g p \<le> g (best_profile ?d))
            \<and> (\<forall>p\<in>set post. g p < g (best_profile ?d))"
      then obtain pre post where pp: "xs = pre @ best_profile ?d # post"
            "best_score ?d = g (best_profile ?d)"
            "\<not> g (best_profile ?d) < best_score d"
            "\<forall>p\<in>set pre. g p \<le> g (best_profile ?d)"
            "\<forall>p\<in>set post. g p < g (best_profile ?d)" by blast
      from pp(1) have "xs @ [x] = pre @ best_profile ?d # (post @ [x])" by simp
      moreover from pp(5) lt pp(2) have "\<forall>p\<in>set (post @ [x]). g p < g (best_profile ?d)" by simp
      ultimately show ?thesis unfolding same using pp(2,3,4) by blast
    qed
  next
    case ge: False
    then have new: "best_profile (foldl (offer g) d (xs @ [x])) = x"
        "best_score (foldl (offer g) d (xs @ [x])) = g x"
      by (simp_all add: offer_def)
    have le: "\<forall>p\<in>set xs. g p \<le> g x"
      using snoc.IH
    proof
      assume "(\<forall>p\<in>set xs. g p < best_score d) \<and> ?d = d"
      with ge show ?thesis by (auto simp: not_less intro: order.trans less_imp_le)
    next
      assume "\<exists>pre post. xs = pre @ best_profile ?d # post
            \<and> best_score ?d = g (best_profile ?d)
            \<and> \<not> g (best_profile ?d) < best_score d
            \<and> (\<forall>p\<in>set pre. g p \<le> g (best_profile ?d))
            \<and> (\<forall>p\<in>set post. g p < g (best_profile ?d))"
      then obtain pre post where pp: "xs = pre @ best_profile ?d # post"
            "best_score ?d = g (best_profile ?d)"
            "\<forall>p\<in>set pre. g p \<le> g (best_profile ?d)"
            "\<forall>p\<in>set post. g p < g (best_profile ?d)" by blast
      from ge pp(2) have b: "g (best_profile ?d) \<le> g x" by (simp add: not_less)
      show ?thesis
      proof
        fix p assume "p \<in> set xs"
        moreover from pp(1) have "set xs = set (pre @ best_profile ?d # post)"
          by (rule arg_cong)
        ultimately have "p \<in> set pre \<or> p = best_profile ?d \<or> p \<in> set post"
          by (simp only: set_append set_simps) blast
        with pp(3,4) have "g p \<le> g (best_profile ?d)" by (auto intro: less_imp_le)
        with b show "g p \<le> g x" by simp
      qed
    qed
    have mono: "best_score d \<le> best_score ?d"
      using snoc.IH by (auto simp: not_less)
    with ge have "\<not> g x < best_score d" by (auto simp: not_less intro: order.trans)
    moreover have "xs @ [x] = xs @ x # []" by simp
    ultimately show ?thesis using le new by (intro disjI2 exI [of _ xs] exI [of _ "[]"]) simp
  qed
qed


lemma find_best_profile_no_candidates:
  assumes "resolved_candidates f caps = []"
  shows "find_best_profile f g caps = GST_VAAPI_PROFILE_UNKNOWN"
  using assms by (simp add: find_best_profile_candidates)

subsection \<open>Ties\<close>

text \<open>
  C2 (as amended).  A resolved candidate replaces the running best unless its rank is
  strictly smaller than the best rank: it replaces it on a greater and on an equal
  rank.  So the selected profile is the last of the candidates of greatest rank: every
  candidate before it has a rank at most its rank, every candidate after it a strictly
  smaller one.  Given candidates of ranks 5, 5, 3 the second is returned.
\<close>

theorem find_best_profile_last_of_best_rank:
  "(f str \<noteq> 0 \<longrightarrow>
      find_best_profile_value f g d (Some (GString (Some str)))
        = (if g (f str) < best_score d then d
           else \<lparr>best_profile = f str, best_score = g (f str)\<rparr>))
   \<and> (resolved_candidates f caps \<noteq> [] \<longrightarrow>
        (\<exists>pre post.
            resolved_candidates f caps = pre @ find_best_profile f g caps # post
            \<and> (\<forall>p\<in>set pre. g p \<le> g (find_best_profile f g caps))
            \<and> (\<forall>p\<in>set post. g p < g (find_best_profile f g caps))))"
proof (intro conjI impI)
  assume "f str \<noteq> 0"
  then show "find_best_profile_value f g d (Some (GString (Some str)))
        = (if g (f str) < best_score d then d
           else \<lparr>best_profile = f str, best_score = g (f str)\<rparr>)"
    by (simp add: find_best_profile_value_def Let_def)
next
  let ?init = "\<lparr>best_profile = GST_VAAPI_PROFILE_UNKNOWN, best_score = 0\<rparr>"
  let ?cs = "resolved_candidates f caps"
  assume ne: "?cs \<noteq> []"
  then obtain c where "c \<in> set ?cs" by (cases ?cs) auto
  then have "\<not> (\<forall>p\<in>set ?cs. g p < best_score ?init)" by auto
  with foldl_offer_last_max [OF ne, of g ?init]
  show "\<exists>pre post.
            ?cs = pre @ find_best_profile f g caps # post
            \<and> (\<forall>p\<in>set pre. g p \<le> g (find_best_profile f g caps))
            \<and> (\<forall>p\<in>set post. g p < g (find_best_profile f g caps))"
    unfolding find_best_profile_candidates by blast
qed

lemma example_candidates: "resolved_candidates example_from_string example_caps = [1, 2, 3]"
  by (simp add: resolved_candidates_def profile_strings_def structure_strings_def
        value_strings_def example_caps_def example_from_string_def)

lemma example_best: "find_best_profile example_from_string example_score example_caps = 2"
  by (simp add: find_best_profile_def find_best_profile_structure_def
        find_best_profile_value_def example_caps_def example_from_string_def
        example_score_def GST_VAAPI_PROFILE_UNKNOWN_def)

theorem find_best_profile_last_of_best_rank_witness:
  "example_from_string ''main-10'' \<noteq> 0
   \<and> find_best_profile_value example_from_string example_score
        \<lparr>best_profile = 1, best_score = 5\<rparr> (Some (GString (Some ''main-10'')))
       = \<lparr>best_profile = 2, best_score = 5\<rparr>
   \<and> resolved_candidates example_from_string example_caps = [1, 2, 3]
   \<and> map example_score [1, 2, 3] = [5, 5, 3]
   \<and> find_best_profile example_from_string example_score example_caps = 2
   \<and> [1, 2, 3] = [1] @ (2 :: GstVaapiProfile) # [3]
   \<and> example_score 1 \<le> example_score 2 \<and> example_score 3 < example_score 2"
proof -
  have h1: "example_from_string ''main-10'' \<noteq> 0"
    by (simp add: example_from_string_def)
  have h2: "resolved_candidates example_from_string example_caps \<noteq> []"
    by (simp add: example_candidates)
  have v: "example_from_string ''main-10'' = 2" "example_score 2 = 5"
    by (simp_all add: example_from_string_def example_score_def)
  have r: "map example_score [1, 2, 3] = [5, 5, 3]"
    by (simp add: example_score_def)
  from find_best_profile_last_of_best_rank
         [of example_from_string "''main-10''" example_score
             "\<lparr>best_profile = 1, best_score = 5\<rparr>" example_caps]
       h1 h2
  have "find_best_profile_value example_from_string example_score
          \<lparr>best_profile = 1, best_score = 5\<rparr> (Some (GString (Some ''main-10'')))
        = \<lparr>best_profile = 2, best_score = 5\<rparr>"
    by (simp_all add: v)
  moreover have "example_score 1 \<le> example_score 2 \<and> example_score 3 < example_score 2"
    by (simp add: example_score_def)
  ultimately show ?thesis using h1 r by (simp add: example_candidates example_best)
qed

text \<open>
  C2 as stated fails: with candidates 1, 2, 3 of ranks 5, 5, 3 the selector returns
  the second candidate, not the first.
\<close>

theorem find_best_profile_tie_counterexample:
  "resolved_candidates example_from_string example_caps = [1, 2, 3]
   \<and> map example_score [1, 2, 3] = [5, 5, 3]
   \<and> find_best_profile example_from_string example_score example_caps = 2
   \<and> find_best_profile example_from_string example_score example_caps \<noteq> 1"
  by (simp add: example_candidates example_best) (simp add: example_score_def)

subsection \<open>No resolvable profile\<close>

text \<open>
  C8.  The selector has no failure: it is a total function into the profiles.  It
  returns \<^verbatim>\<open>GST_VAAPI_PROFILE_UNKNOWN\<close> when none of the strings it meets resolves, in
  particular for empty caps and for caps whose structures have no \<^verbatim>\<open>profile\<close> field.  A
  string that does not resolve leaves the running best as it is, and the result
  depends on the resolved candidates only.
\<close>

theorem find_best_profile_none:
  "((\<forall>str\<in>set (profile_strings caps). f str = 0) \<longrightarrow>
       find_best_profile f g caps = GST_VAAPI_PROFILE_UNKNOWN)
   \<and> find_best_profile f g [] = GST_VAAPI_PROFILE_UNKNOWN
   \<and> ((\<forall>structure\<in>set caps. map_of structure ''profile'' = None) \<longrightarrow>
       find_best_profile f g caps = GST_VAAPI_PROFILE_UNKNOWN)
   \<and> (f str = 0 \<longrightarrow> find_best_profile_value f g d (Some (GString (Some str))) = d)
   \<and> (resolved_candidates f caps = resolved_candidates f caps' \<longrightarrow>
       find_best_profile f g caps = find_best_profile f g caps')"
proof (intro conjI impI)
  assume "\<forall>str\<in>set (profile_strings caps). f str = 0"
  then have "resolved_candidates f caps = []"
    by (simp add: resolved_candidates_def filter_empty_conv)
  then show "find_best_profile f g caps = GST_VAAPI_PROFILE_UNKNOWN"
    by (rule find_best_profile_no_candidates)
next
  show "find_best_profile f g [] = GST_VAAPI_PROFILE_UNKNOWN"
    by (simp add: find_best_profile_def)
next
  assume "\<forall>structure\<in>set caps. map_of structure ''profile'' = None"
  then have "profile_strings caps = []"
    by (simp add: profile_strings_def structure_strings_def)
  then have "resolved_candidates f caps = []"
    by (simp add: resolved_candidates_def)
  then show "find_best_profile f g caps = GST_VAAPI_PROFILE_UNKNOWN"
    by (rule find_best_profile_no_candidates)
next
  assume "f str = 0"
  then show "find_best_profile_value f g d (Some (GString (Some str))) = d"
    by (simp add: find_best_profile_value_def)
next
  assume "resolved_candidates f caps = resolved_candidates f caps'"
  then show "find_best_profile f g caps = find_best_profile f g caps'"
    by (simp add: find_best_profile_candidates)
qed

lemma unresolved_strings: "profile_strings unresolved_caps = [''high'', ''baseline'']"
  by (simp add: profile_strings_def structure_strings_def value_strings_def unresolved_caps_def)

theorem find_best_profile_none_witness:
  "profile_strings unresolved_caps = [''high'', ''baseline'']
   \<and> example_from_string ''high'' = 0 \<and> example_from_string ''baseline'' = 0
   \<and> find_best_profile example_from_string example_score unresolved_caps
       = GST_VAAPI_PROFILE_UNKNOWN
   \<and> map_of [(''stream-format'', GString (Some ''hvc1''))] ''profile'' = None
   \<and> find_best_profile example_from_string example_score
        [[(''stream-format'', GString (Some ''hvc1''))]] = GST_VAAPI_PROFILE_UNKNOWN
   \<and> find_best_profile_value example_from_string example_score
        \<lparr>best_profile = 1, best_score = 5\<rparr> (Some (GString (Some ''high'')))
       = \<lparr>best_profile = 1, best_score = 5\<rparr>
   \<and> resolved_candidates example_from_string (unresolved_caps @ example_caps)
       = resolved_candidates example_from_string example_caps
   \<and> find_best_profile example_from_string example_score (unresolved_caps @ example_caps)
       = find_best_profile example_from_string example_score example_caps"
proof -
  have u: "example_from_string ''high'' = 0 \<and> example_from_string ''baseline'' = 0"
    by (simp add: example_from_string_def)
  then have h1: "\<forall>str\<in>set (profile_strings unresolved_caps). example_from_string str = 0"
    by (simp add: unresolved_strings)
  have m: "map_of [(''stream-format'', GString (Some ''hvc1''))] ''profile'' = None"
    by simp
  then have h2: "\<forall>structure\<in>set [[(''stream-format'', GString (Some ''hvc1''))]].
         map_of structure ''profile'' = None"
    by simp
  from u have h3: "example_from_string ''high'' = 0" by simp
  have h4: "resolved_candidates example_from_string (unresolved_caps @ example_caps)
       = resolved_candidates example_from_string example_caps"
    using h1 by (simp add: resolved_candidates_def profile_strings_def [of "_ @ _"]
                   profile_strings_def [symmetric] unresolved_strings example_from_string_def)
  from find_best_profile_none [of unresolved_caps example_from_string example_score]
    h1
  have c1: "find_best_profile example_from_string example_score unresolved_caps
       = GST_VAAPI_PROFILE_UNKNOWN" by blast
  from find_best_profile_none
         [of "[[(''stream-format'', GString (Some ''hvc1''))]]" example_from_string example_score]
    h2
  have c2: "find_best_profile example_from_string example_score
        [[(''stream-format'', GString (Some ''hvc1''))]] = GST_VAAPI_PROFILE_UNKNOWN" by blast
  from find_best_profile_none
         [of "unresolved_caps @ example_caps" example_from_string example_score "''high''"
             "\<lparr>best_profile = 1, best_score = 5\<rparr>" example_caps]
    h3 h4
  have c3: "find_best_profile_value example_from_string example_score
        \<lparr>best_profile = 1, best_score = 5\<rparr> (Some (GString (Some ''high'')))
       = \<lparr>best_profile = 1, best_score = 5\<rparr>"
    and c4: "find_best_profile example_from_string example_score (unresolved_caps @ example_caps)
       = find_best_profile example_from_string example_score example_caps" by blast+
  from unresolved_strings u m h4 c1 c2 c3 c4 show ?thesis by blast
qed

end
